theory Spec2Isabelle
  imports Main "HOL-Library.Word" "HOL-Library.Signed_Division"
begin

unbundle bit_operations_syntax

section \<open>Selective-Repeat sender and receiver of \<^verbatim>\<open>sr.c\<close>\<close>

subsection \<open>C integers and arrays\<close>

text \<open>
  A C \<^verbatim>\<open>int\<close> is a 32-bit word read in two's complement (\<open>sint\<close>); \<open>+\<close> and \<open>-\<close>
  wrap around. A \<^verbatim>\<open>char\<close> is an 8-bit word, and the conversion \<^verbatim>\<open>(int)c\<close> sign-extends
  it (\<open>char_to_int\<close>).
\<close>

type_synonym cint = "32 word"
type_synonym cchar = "8 word"

definition char_to_int :: "cchar \<Rightarrow> cint" where
  "char_to_int c = scast c"

text \<open>The C operator \<^verbatim>\<open>%\<close> on \<^verbatim>\<open>int\<close>: the remainder of the division that truncates
  towards zero.\<close>

definition c_mod :: "cint \<Rightarrow> cint \<Rightarrow> cint" where
  "c_mod a b = word_of_int (sint a smod sint b)"

text \<open>
  A C array of declared size \<open>n\<close> is a list of length \<open>n\<close>. An index expression
  \<^verbatim>\<open>a[i]\<close> is inside the array when \<open>in_bounds i a\<close> holds, and then denotes the element
  at position \<open>idx i\<close>. Every operation below checks \<open>in_bounds\<close> before it indexes and
  returns the fault \<open>OutOfBounds\<close> where the C program would leave its array.
\<close>

definition in_bounds :: "cint \<Rightarrow> 'a list \<Rightarrow> bool" where
  "in_bounds i xs \<longleftrightarrow> 0 \<le> sint i \<and> sint i < int (length xs)"

definition idx :: "cint \<Rightarrow> nat" where
  "idx i = nat (sint i)"

datatype fault = OutOfBounds

subsection \<open>Constants\<close>

definition WINDOWSIZE :: cint where
  "WINDOWSIZE = 6"

definition SEQSPACE :: cint where
  "SEQSPACE = 12"

definition NOTINUSE :: cint where
  "NOTINUSE = - 1"

subsection \<open>Packets and messages\<close>

text \<open>
  Modelled from the spec: \<^verbatim>\<open>struct pkt\<close> and \<^verbatim>\<open>struct msg\<close> are declared in
  \<^verbatim>\<open>emulator.h\<close>, which is not among the sources. The spec gives a packet a sequence
  number, an acknowledgment number and a checksum (integers) and a payload of 20 bytes,
  and a message a payload of the same length; \<^verbatim>\<open>sr.c\<close> reads them as
  \<^verbatim>\<open>seqnum\<close>, \<^verbatim>\<open>acknum\<close>, \<^verbatim>\<open>checksum\<close>, \<^verbatim>\<open>payload[i]\<close> and \<^verbatim>\<open>data[i]\<close>.
\<close>

record pkt =
  seqnum :: cint
  acknum :: cint
  checksum :: cint
  payload :: "cchar list"

record msg =
  data :: "cchar list"

definition wf_pkt :: "pkt \<Rightarrow> bool" where
  "wf_pkt p \<longleftrightarrow> length (payload p) = 20"

subsection \<open>Checksum\<close>

definition ComputeChecksum :: "pkt \<Rightarrow> cint" where
  "ComputeChecksum packet =
     foldl (\<lambda>c i. c + char_to_int (payload packet ! i)) (seqnum packet + acknum packet) [0..<20]"

definition IsCorrupted :: "pkt \<Rightarrow> bool" where
  "IsCorrupted packet = (if checksum packet = ComputeChecksum packet then False else True)"

subsection \<open>Single-byte mutations of a packet\<close>

text \<open>
  The bytes of a packet outside its checksum field: the four bytes of the sequence
  number, the four bytes of the acknowledgment number and the twenty payload bytes.
  \<open>mutate pos b p\<close> overwrites the byte at \<open>pos\<close> with \<open>b\<close> and leaves everything else,
  the checksum field included, as it is.
\<close>

definition get_byte :: "nat \<Rightarrow> cint \<Rightarrow> cchar" where
  "get_byte k w = ucast (drop_bit (8 * k) w)"

definition set_byte :: "nat \<Rightarrow> cchar \<Rightarrow> cint \<Rightarrow> cint" where
  "set_byte k b w = (w AND NOT (push_bit (8 * k) 255)) OR push_bit (8 * k) (ucast b)"

datatype byte_pos = SeqByte nat | AckByte nat | PayloadByte nat

fun valid_pos :: "byte_pos \<Rightarrow> bool" where
  "valid_pos (SeqByte k) \<longleftrightarrow> k < 4"
| "valid_pos (AckByte k) \<longleftrightarrow> k < 4"
| "valid_pos (PayloadByte i) \<longleftrightarrow> i < 20"

fun byte_at :: "byte_pos \<Rightarrow> pkt \<Rightarrow> cchar" where
  "byte_at (SeqByte k) p = get_byte k (seqnum p)"
| "byte_at (AckByte k) p = get_byte k (acknum p)"
| "byte_at (PayloadByte i) p = payload p ! i"

fun mutate :: "byte_pos \<Rightarrow> cchar \<Rightarrow> pkt \<Rightarrow> pkt" where
  "mutate (SeqByte k) b p = p\<lparr>seqnum := set_byte k b (seqnum p)\<rparr>"
| "mutate (AckByte k) b p = p\<lparr>acknum := set_byte k b (acknum p)\<rparr>"
| "mutate (PayloadByte i) b p = p\<lparr>payload := (payload p)[i := b]\<rparr>"

subsection \<open>Calls into the emulator\<close>

text \<open>
  The routines talk to the network emulator through \<^verbatim>\<open>tolayer3\<close>, \<^verbatim>\<open>tolayer5\<close>,
  \<^verbatim>\<open>starttimer\<close> and \<^verbatim>\<open>stoptimer\<close>, and count in the emulator's statistics variables
  \<^verbatim>\<open>window_full\<close>, \<^verbatim>\<open>new_ACKs\<close>, \<^verbatim>\<open>packets_resent\<close> and \<^verbatim>\<open>packets_received\<close>.
  Each routine returns the list of these calls in the order it makes them. Every
  \<^verbatim>\<open>starttimer\<close> is called with the same duration, the constant \<^verbatim>\<open>RTT\<close>, which the
  event leaves out. The \<^verbatim>\<open>printf\<close> calls under \<^verbatim>\<open>TRACE\<close> are not part of the model.
\<close>

datatype entity = A | B

datatype counter = window_full | new_ACKs | packets_resent | packets_received

datatype event =
    tolayer3 entity pkt
  | tolayer5 entity "cchar list"
  | starttimer entity
  | stoptimer entity
  | incr counter

subsection \<open>Sender\<close>

text \<open>
  The static variables of the sender: \<^verbatim>\<open>buffer[WINDOWSIZE]\<close>, \<^verbatim>\<open>windowfirst\<close>,
  \<^verbatim>\<open>windowlast\<close>, \<^verbatim>\<open>windowcount\<close>, \<^verbatim>\<open>A_nextseqnum\<close> and \<^verbatim>\<open>acked[SEQSPACE]\<close>.
\<close>

record sender =
  buffer :: "pkt list"
  windowfirst :: cint
  windowlast :: cint
  windowcount :: cint
  A_nextseqnum :: cint
  acked :: "bool list"

definition A_output :: "sender \<Rightarrow> msg \<Rightarrow> fault + sender \<times> event list" where
  "A_output s message =
     (if sint (windowcount s) < sint WINDOWSIZE then
        let sendpkt0 = \<lparr>seqnum = A_nextseqnum s, acknum = NOTINUSE, checksum = 0,
                        payload = map (\<lambda>i. data message ! i) [0..<20]\<rparr>;
            sendpkt = sendpkt0\<lparr>checksum := ComputeChecksum sendpkt0\<rparr>;
            wl = c_mod (windowlast s + 1) WINDOWSIZE
        in if \<not> in_bounds wl (buffer s) then Inl OutOfBounds
           else
             let wc = windowcount s + 1;
                 s' = s\<lparr>windowlast := wl,
                        buffer := (buffer s)[idx wl := sendpkt],
                        windowcount := wc,
                        A_nextseqnum := c_mod (A_nextseqnum s + 1) SEQSPACE\<rparr>
             in Inr (s', tolayer3 A sendpkt # (if wc = 1 then [starttimer A] else []))
      else Inr (s, [incr window_full]))"

text \<open>
  The \<^verbatim>\<open>while\<close> loop of \<^verbatim>\<open>A_input\<close>. The test \<^verbatim>\<open>windowcount > 0\<close> comes first and
  short-circuits, so the arrays are read only when it holds. The loop ends because
  \<^verbatim>\<open>windowcount\<close> is positive and decreases.
\<close>

function slide :: "sender \<Rightarrow> fault + sender" where
  "slide s =
     (if 0 < sint (windowcount s) then
        if \<not> in_bounds (windowfirst s) (buffer s) then Inl OutOfBounds
        else if \<not> in_bounds (seqnum (buffer s ! idx (windowfirst s))) (acked s) then Inl OutOfBounds
        else if acked s ! idx (seqnum (buffer s ! idx (windowfirst s))) then
          slide (s\<lparr>windowfirst := c_mod (windowfirst s + 1) WINDOWSIZE,
                   windowcount := windowcount s - 1\<rparr>)
        else Inr s
      else Inr s)"
  by pat_completeness auto
termination
proof (relation "measure (\<lambda>s. nat (sint (windowcount s)))")
  show "wf (measure (\<lambda>s. nat (sint (windowcount s))))"
    by simp
next
  fix s :: sender
  assume pos: "0 < sint (windowcount s)"
  have "sint (windowcount s) < 2 ^ 31"
    using sint_lt [of "windowcount s"] by simp
  with pos have "sint (windowcount s - 1) = sint (windowcount s) - 1"
    by (simp add: sint_word_ariths signed_take_bit_int_eq_self)
  with pos show "(s\<lparr>windowfirst := c_mod (windowfirst s + 1) WINDOWSIZE,
                    windowcount := windowcount s - 1\<rparr>, s)
              \<in> measure (\<lambda>s. nat (sint (windowcount s)))"
    by simp
qed

definition A_input :: "sender \<Rightarrow> pkt \<Rightarrow> fault + sender \<times> event list" where
  "A_input s packet =
     (if \<not> IsCorrupted packet then
        if \<not> in_bounds (acknum packet) (acked s) then Inl OutOfBounds
        else if \<not> acked s ! idx (acknum packet) then
          let s1 = s\<lparr>acked := (acked s)[idx (acknum packet) := True]\<rparr>
          in if \<not> in_bounds (windowfirst s1) (buffer s1) then Inl OutOfBounds
             else if acknum packet = seqnum (buffer s1 ! idx (windowfirst s1)) then
               (case slide s1 of
                  Inl f \<Rightarrow> Inl f
                | Inr s2 \<Rightarrow>
                    Inr (s2, [incr new_ACKs, stoptimer A] @
                             (if 0 < sint (windowcount s2) then [starttimer A] else [])))
             else Inr (s1, [incr new_ACKs])
        else Inr (s, [])
      else Inr (s, []))"

definition A_timerinterrupt :: "sender \<Rightarrow> fault + sender \<times> event list" where
  "A_timerinterrupt s =
     (if \<not> in_bounds (windowfirst s) (buffer s) then Inl OutOfBounds
      else Inr (s, [tolayer3 A (buffer s ! idx (windowfirst s)), incr packets_resent] @
                   (if 0 < sint (windowcount s) then [starttimer A] else [])))"

text \<open>
  \<^verbatim>\<open>A_init\<close> also stores \<^verbatim>\<open>0.0f\<close> in \<^verbatim>\<open>sendtime[i]\<close>, an array that \<^verbatim>\<open>sr.c\<close> neither
  declares nor reads; it is left out.
\<close>

definition A_init :: "sender \<Rightarrow> sender" where
  "A_init s =
     s\<lparr>A_nextseqnum := 0,
       windowfirst := 0,
       windowlast := - 1,
       windowcount := 0,
       acked := foldl (\<lambda>a i. a[i := False]) (acked s) [0..<nat (sint SEQSPACE)]\<rparr>"

text \<open>
  The window slide in the spec's words: the condition under which the head is skipped
  (the outstanding count is positive and the head's sequence number is marked acked)
  and one step of the slide (the head index advances, the outstanding count drops by one).
\<close>

definition head_acked :: "sender \<Rightarrow> bool" where
  "head_acked s \<longleftrightarrow>
     0 < sint (windowcount s) \<and> acked s ! idx (seqnum (buffer s ! idx (windowfirst s)))"

definition advance :: "sender \<Rightarrow> sender" where
  "advance s = s\<lparr>windowfirst := c_mod (windowfirst s + 1) WINDOWSIZE,
                 windowcount := windowcount s - 1\<rparr>"

text \<open>
  A run of the sender: the emulator calls \<^verbatim>\<open>A_output\<close>, \<^verbatim>\<open>A_input\<close> and
  \<^verbatim>\<open>A_timerinterrupt\<close> one at a time, in any order and with any arguments. A run ends
  at the first call that leaves an array.
\<close>

datatype A_op = Submit msg | OnAck pkt | OnTimeout

fun A_step :: "sender \<Rightarrow> A_op \<Rightarrow> fault + sender \<times> event list" where
  "A_step s (Submit m) = A_output s m"
| "A_step s (OnAck p) = A_input s p"
| "A_step s OnTimeout = A_timerinterrupt s"

fun A_run :: "sender \<Rightarrow> A_op list \<Rightarrow> fault + sender" where
  "A_run s [] = Inr s"
| "A_run s (x # xs) = (case A_step s x of Inl f \<Rightarrow> Inl f | Inr (s', evs) \<Rightarrow> A_run s' xs)"

text \<open>The calls whose argument keeps \<^verbatim>\<open>A_input\<close> inside \<^verbatim>\<open>acked\<close>: an acknowledgment
  is either corrupted, and ignored, or names a sequence number of the sequence space.\<close>

fun op_ok :: "A_op \<Rightarrow> bool" where
  "op_ok (OnAck p) \<longleftrightarrow>
     IsCorrupted p \<or> (0 \<le> sint (acknum p) \<and> sint (acknum p) < sint SEQSPACE)"
| "op_ok x \<longleftrightarrow> True"

text \<open>The packets a list of calls hands to layer 3, in order.\<close>

fun transmitted :: "event list \<Rightarrow> pkt list" where
  "transmitted [] = []"
| "transmitted (tolayer3 e p # evs) = p # transmitted evs"
| "transmitted (ev # evs) = transmitted evs"

text \<open>The window bound, and the ranges the indices and sequence numbers of the sender
  stay in.\<close>

definition count_ok :: "sender \<Rightarrow> bool" where
  "count_ok s \<longleftrightarrow> 0 \<le> sint (windowcount s) \<and> sint (windowcount s) \<le> sint WINDOWSIZE"

definition sender_inv :: "sender \<Rightarrow> bool" where
  "sender_inv s \<longleftrightarrow>
     length (buffer s) = 6 \<and> length (acked s) = 12
     \<and> 0 \<le> sint (windowfirst s) \<and> sint (windowfirst s) < 6
     \<and> - 1 \<le> sint (windowlast s) \<and> sint (windowlast s) < 6
     \<and> 0 \<le> sint (A_nextseqnum s) \<and> sint (A_nextseqnum s) < 12
     \<and> list_all (\<lambda>p. 0 \<le> sint (seqnum p) \<and> sint (seqnum p) < 12) (buffer s)
     \<and> count_ok s"

subsection \<open>Receiver\<close>

text \<open>
  The static variables of the receiver: \<^verbatim>\<open>expectedseqnum\<close>, \<^verbatim>\<open>B_nextseqnum\<close>,
  \<^verbatim>\<open>recvpkt[SEQSPACE]\<close> and \<^verbatim>\<open>received[SEQSPACE]\<close>.
\<close>

record receiver =
  expectedseqnum :: cint
  B_nextseqnum :: cint
  recvpkt :: "pkt list"
  received :: "bool list"

text \<open>
  The \<^verbatim>\<open>while\<close> loop of \<^verbatim>\<open>B_input\<close>. Every round clears a flag that was set, so the
  number of set flags decreases and the loop ends.
\<close>

function deliver :: "receiver \<Rightarrow> fault + receiver \<times> event list" where
  "deliver r =
     (if \<not> in_bounds (expectedseqnum r) (received r) then Inl OutOfBounds
      else if received r ! idx (expectedseqnum r) then
        if \<not> in_bounds (expectedseqnum r) (recvpkt r) then Inl OutOfBounds
        else
          (case deliver (r\<lparr>received := (received r)[idx (expectedseqnum r) := False],
                           expectedseqnum := c_mod (expectedseqnum r + 1) SEQSPACE\<rparr>) of
             Inl f \<Rightarrow> Inl f
           | Inr (r', evs) \<Rightarrow>
               Inr (r', tolayer5 B (payload (recvpkt r ! idx (expectedseqnum r))) # evs))
      else Inr (r, []))"
  by pat_completeness auto
termination
proof (relation "measure (\<lambda>r. length (filter id (received r)))")
  show "wf (measure (\<lambda>r. length (filter id (received r))))"
    by simp
next
  fix r :: receiver
  assume inb: "\<not> \<not> in_bounds (expectedseqnum r) (received r)"
    and set: "received r ! idx (expectedseqnum r)"
  have less: "length (filter id (xs[i := False])) < length (filter id xs)"
    if "i < length xs" and "xs ! i" for xs :: "bool list" and i
    using that
  proof (induction xs arbitrary: i)
    case Nil
    then show ?case by simp
  next
    case (Cons x xs)
    then show ?case by (cases i) auto
  qed
  from inb have "idx (expectedseqnum r) < length (received r)"
    by (simp add: in_bounds_def idx_def nat_less_iff)
  with set less show "(r\<lparr>received := (received r)[idx (expectedseqnum r) := False],
                         expectedseqnum := c_mod (expectedseqnum r + 1) SEQSPACE\<rparr>, r)
                    \<in> measure (\<lambda>r. length (filter id (received r)))"
    by simp
qed

text \<open>
  The local \<^verbatim>\<open>sendpkt\<close> of \<^verbatim>\<open>B_input\<close> is not initialised and its \<^verbatim>\<open>seqnum\<close> is never
  assigned: the contents \<^verbatim>\<open>sendpkt\<close> starts with are the parameter \<open>uninit\<close>.
  The payload is filled with the character \<^verbatim>\<open>'0'\<close>, code 48.
\<close>

definition B_input :: "receiver \<Rightarrow> pkt \<Rightarrow> pkt \<Rightarrow> fault + receiver \<times> event list" where
  "B_input r packet uninit =
     (if \<not> IsCorrupted packet then
        if \<not> in_bounds (seqnum packet) (received r) then Inl OutOfBounds
        else
          (case (if \<not> received r ! idx (seqnum packet) then
                   if \<not> in_bounds (seqnum packet) (recvpkt r) then Inl OutOfBounds
                   else Inr (r\<lparr>received := (received r)[idx (seqnum packet) := True],
                              recvpkt := (recvpkt r)[idx (seqnum packet) :=
                                 (recvpkt r ! idx (seqnum packet))
                                   \<lparr>payload := map (\<lambda>i. payload packet ! i) [0..<20]\<rparr>]\<rparr>)
                 else Inr r) of
             Inl f \<Rightarrow> Inl f
           | Inr r1 \<Rightarrow>
               (case deliver r1 of
                  Inl f \<Rightarrow> Inl f
                | Inr (r2, delivered) \<Rightarrow>
                    let sendpkt1 = uninit\<lparr>acknum := seqnum packet\<rparr>;
                        sendpkt2 = sendpkt1\<lparr>acknum := NOTINUSE\<rparr>;
                        sendpkt3 = sendpkt2\<lparr>payload := map (\<lambda>i. 48) [0..<20]\<rparr>;
                        sendpkt = sendpkt3\<lparr>checksum := ComputeChecksum sendpkt3\<rparr>
                    in Inr (r2, incr packets_received # delivered @ [tolayer3 B sendpkt])))
      else Inr (r, []))"

definition B_init :: "receiver \<Rightarrow> receiver" where
  "B_init r = r\<lparr>expectedseqnum := 0, B_nextseqnum := 1\<rparr>"

text \<open>The range the expected sequence number stays in.\<close>

definition receiver_inv :: "receiver \<Rightarrow> bool" where
  "receiver_inv r \<longleftrightarrow>
     length (recvpkt r) = 12 \<and> length (received r) = 12
     \<and> 0 \<le> sint (expectedseqnum r) \<and> sint (expectedseqnum r) < 12"

subsection \<open>Initial storage\<close>

text \<open>
  The objects of static storage duration start zero-initialised: these are the states
  \<^verbatim>\<open>A_init\<close> and \<^verbatim>\<open>B_init\<close> are called on, once, before any other routine.
\<close>

definition zero_pkt :: pkt where
  "zero_pkt = \<lparr>seqnum = 0, acknum = 0, checksum = 0, payload = replicate 20 0\<rparr>"

definition A_static :: sender where
  "A_static = \<lparr>buffer = replicate 6 zero_pkt, windowfirst = 0, windowlast = 0,
               windowcount = 0, A_nextseqnum = 0, acked = replicate 12 False\<rparr>"

definition B_static :: receiver where
  "B_static = \<lparr>expectedseqnum = 0, B_nextseqnum = 0,
               recvpkt = replicate 12 zero_pkt, received = replicate 12 False\<rparr>"

subsection \<open>Example inputs\<close>

text \<open>
  A message whose twenty bytes are all the character \<open>c\<close>; the data packet that carries
  it under sequence number \<open>n\<close>; an acknowledgment that names sequence number \<open>n\<close> in
  its \<^verbatim>\<open>acknum\<close>; and the sender after six such messages, its window full.
\<close>

definition mk_msg :: "cchar \<Rightarrow> msg" where
  "mk_msg c = \<lparr>data = replicate 20 c\<rparr>"

definition data_pkt :: "cint \<Rightarrow> cchar \<Rightarrow> pkt" where
  "data_pkt n c = \<lparr>seqnum = n, acknum = - 1, checksum = n - 1 + 20 * char_to_int c,
                    payload = replicate 20 c\<rparr>"

definition ack_pkt :: "cint \<Rightarrow> pkt" where
  "ack_pkt n = \<lparr>seqnum = 0, acknum = n, checksum = n + 960, payload = replicate 20 48\<rparr>"

definition six_sent :: sender where
  "six_sent = \<lparr>buffer = [data_pkt 0 65, data_pkt 1 65, data_pkt 2 65,
                           data_pkt 3 65, data_pkt 4 65, data_pkt 5 65],
               windowfirst = 0, windowlast = 5, windowcount = 6, A_nextseqnum = 6,
               acked = replicate 12 False\<rparr>"

text \<open>
  The full window after the acknowledgment of sequence number 1 has been processed (the
  head, sequence number 0, is still outstanding), and the same window after the
  acknowledgment of sequence number 0: the head has moved past both packets.
\<close>

definition six_sent_ack1 :: sender where
  "six_sent_ack1 = six_sent\<lparr>acked := (replicate 12 False)[1 := True]\<rparr>"

definition six_sent_slid :: sender where
  "six_sent_slid = six_sent\<lparr>windowfirst := 2, windowcount := 4,
                             acked := (replicate 12 False)[1 := True, 0 := True]\<rparr>"

text \<open>
  The first exchange: the sender after it has sent its first message, the receiver after
  it has taken that packet, and the receiver after it has instead taken the packet with
  sequence number 3, which it caches until the packets before it arrive.
\<close>

definition first_sent :: sender where
  "first_sent = A_static\<lparr>buffer := (replicate 6 zero_pkt)[0 := data_pkt 0 65],
                         windowcount := 1, A_nextseqnum := 1\<rparr>"

definition first_received :: receiver where
  "first_received =
     B_static\<lparr>expectedseqnum := 1, B_nextseqnum := 1,
              recvpkt := (replicate 12 zero_pkt)[0 := zero_pkt\<lparr>payload := replicate 20 65\<rparr>]\<rparr>"

definition cached3 :: receiver where
  "cached3 =
     B_static\<lparr>B_nextseqnum := 1,
              recvpkt := (replicate 12 zero_pkt)[3 := zero_pkt\<lparr>payload := replicate 20 65\<rparr>],
              received := (replicate 12 False)[3 := True]\<rparr>"

section \<open>Properties\<close>

subsection \<open>Checksum\<close>

lemma checksum_fold_sum:
  "foldl (\<lambda>c i. c + f (xs ! i)) c0 [0..<length xs] = c0 + sum_list (map f xs)"
proof (induction xs arbitrary: c0 rule: rev_induct)
  case Nil
  then show ?case by simp
next
  case (snoc x xs)
  have "foldl (\<lambda>c i. c + f ((xs @ [x]) ! i)) c0 [0..<length xs]
      = foldl (\<lambda>c i. c + f (xs ! i)) c0 [0..<length xs]"
    by (rule foldl_cong) (simp_all add: nth_append)
  with snoc show ?case by (simp add: add.assoc)
qed

lemma ComputeChecksum_sum:
  "wf_pkt p \<Longrightarrow>
   ComputeChecksum p = seqnum p + acknum p + sum_list (map char_to_int (payload p))"
  using checksum_fold_sum [of char_to_int "payload p" "seqnum p + acknum p"]
  by (simp add: ComputeChecksum_def wf_pkt_def)

lemma byte_mask: "(255 :: cint) = mask 8"
  by (simp add: mask_eq_exp_minus_1)

lemma get_set_byte: "k < 4 \<Longrightarrow> get_byte k (set_byte k b w) = b"
  unfolding get_byte_def set_byte_def byte_mask
  by (rule bit_word_eqI) (auto simp add: bit_simps)

lemma set_byte_neq: "k < 4 \<Longrightarrow> b \<noteq> get_byte k w \<Longrightarrow> set_byte k b w \<noteq> w"
  using get_set_byte by metis

lemma ucast_char_to_int: "ucast (char_to_int a) = a"
  unfolding char_to_int_def
  by (rule bit_word_eqI) (auto simp add: bit_simps)

lemma char_to_int_inj: "char_to_int a = char_to_int b \<Longrightarrow> a = b"
  by (metis ucast_char_to_int)

lemma sum_list_update_word:
  fixes f :: "'a \<Rightarrow> cint"
  shows "i < length xs \<Longrightarrow> sum_list (map f (xs[i := b])) = sum_list (map f xs) - f (xs ! i) + f b"
  by (induction xs arbitrary: i) (auto split: nat.splits)

lemma wf_pkt_mutate: "wf_pkt p \<Longrightarrow> wf_pkt (mutate pos b p)"
  by (cases pos) (simp_all add: wf_pkt_def)

text \<open>
  C6. Checksum soundness: take a packet that is not corrupted and overwrite one byte of
  its payload, of its sequence number or of its acknowledgment number with a different
  value, keeping the checksum field; \<open>IsCorrupted\<close> is true of the result.
\<close>

theorem single_byte_mutation_detected:
  assumes ok: "\<not> IsCorrupted p" and wf: "wf_pkt p"
    and pos: "valid_pos pos" and diff: "b \<noteq> byte_at pos p"
  shows "IsCorrupted (mutate pos b p)"
proof -
  from ok have cs: "checksum p = ComputeChecksum p"
    by (simp add: IsCorrupted_def split: if_splits)
  have "ComputeChecksum (mutate pos b p) \<noteq> ComputeChecksum p"
  proof (cases pos)
    case (SeqByte k)
    with pos diff have "set_byte k b (seqnum p) \<noteq> seqnum p"
      by (simp add: set_byte_neq)
    with SeqByte wf wf_pkt_mutate [OF wf, of pos b] show ?thesis
      by (simp add: ComputeChecksum_sum)
  next
    case (AckByte k)
    with pos diff have "set_byte k b (acknum p) \<noteq> acknum p"
      by (simp add: set_byte_neq)
    with AckByte wf wf_pkt_mutate [OF wf, of pos b] show ?thesis
      by (simp add: ComputeChecksum_sum)
  next
    case (PayloadByte i)
    with pos wf have i: "i < length (payload p)"
      by (simp add: wf_pkt_def)
    from PayloadByte diff have "char_to_int b \<noteq> char_to_int (payload p ! i)"
      using char_to_int_inj by auto
    with PayloadByte wf wf_pkt_mutate [OF wf, of pos b] i show ?thesis
      by (simp add: ComputeChecksum_sum sum_list_update_word)
  qed
  moreover have "checksum (mutate pos b p) = checksum p"
    by (cases pos) simp_all
  ultimately show ?thesis
    using cs by (simp add: IsCorrupted_def)
qed

theorem single_byte_mutation_detected_witness:
  "\<not> IsCorrupted \<lparr>seqnum = 3, acknum = - 1, checksum = 1302, payload = replicate 20 65\<rparr>
   \<and> wf_pkt \<lparr>seqnum = 3, acknum = - 1, checksum = 1302, payload = replicate 20 65\<rparr>
   \<and> valid_pos (PayloadByte 5)
   \<and> 122 \<noteq> byte_at (PayloadByte 5) \<lparr>seqnum = 3, acknum = - 1, checksum = 1302, payload = replicate 20 65\<rparr>
   \<and> IsCorrupted (mutate (PayloadByte 5) 122
        \<lparr>seqnum = 3, acknum = - 1, checksum = 1302, payload = replicate 20 65\<rparr>)"
proof -
  let ?p = "\<lparr>seqnum = 3, acknum = - 1, checksum = 1302, payload = replicate 20 (65 :: cchar)\<rparr>"
  have wf: "wf_pkt ?p" by (simp add: wf_pkt_def)
  have ok: "\<not> IsCorrupted ?p"
    by (simp add: IsCorrupted_def ComputeChecksum_sum [OF wf] sum_list_replicate char_to_int_def)
  have pos: "valid_pos (PayloadByte 5)" by simp
  have diff: "122 \<noteq> byte_at (PayloadByte 5) ?p" by simp
  from single_byte_mutation_detected [OF ok wf pos diff] ok wf pos diff show ?thesis
    by blast
qed

subsection \<open>Arithmetic on C integers\<close>

declare slide.simps [simp del] deliver.simps [simp del]

lemma sint_consts [simp]:
  "sint WINDOWSIZE = 6" "sint SEQSPACE = 12" "sint NOTINUSE = - 1"
  by (simp_all add: WINDOWSIZE_def SEQSPACE_def NOTINUSE_def)

lemma sint_pred: "0 < sint (w :: cint) \<Longrightarrow> sint (w - 1) = sint w - 1"
proof -
  assume pos: "0 < sint w"
  have "sint w < 2 ^ 31"
    using sint_lt [of w] by simp
  with pos show ?thesis
    by (simp add: sint_word_ariths signed_take_bit_int_eq_self)
qed

lemma sint_succ: "0 \<le> sint (w :: cint) \<Longrightarrow> sint w < 6 \<Longrightarrow> sint (w + 1) = sint w + 1"
  by (simp add: sint_word_ariths signed_take_bit_int_eq_self)

lemma c_mod_succ:
  assumes "- 1 \<le> sint (a :: cint)" "sint a < 12" "0 < sint m" "sint m \<le> 12"
  shows "sint (c_mod (a + 1) m) = (sint a + 1) mod sint m"
proof -
  from assms have s: "sint (a + 1) = sint a + 1"
    by (simp add: sint_word_ariths signed_take_bit_int_eq_self)
  with assms have "sint (a + 1) smod sint m = (sint a + 1) mod sint m"
    by (simp add: smod_int_alt_def sgn_if)
  moreover have "0 \<le> (sint a + 1) mod sint m" "(sint a + 1) mod sint m < 12"
    using assms by (simp_all add: pos_mod_bound [THEN less_le_trans])
  ultimately show ?thesis
    by (simp add: c_mod_def sint_word_ariths signed_take_bit_int_eq_self signed_of_int)
qed

subsection \<open>The example inputs\<close>

lemma data_pkt_ok: "\<not> IsCorrupted (data_pkt 0 65)"
  by code_simp

lemma ack_pkt_ok: "\<not> IsCorrupted (ack_pkt n)"
proof -
  have "wf_pkt (ack_pkt n)"
    by (simp add: wf_pkt_def ack_pkt_def)
  then show ?thesis
    by (simp add: IsCorrupted_def ComputeChecksum_sum)
      (simp add: ack_pkt_def char_to_int_def sum_list_replicate)
qed

lemma first_packet_sent:
  "A_output (A_init A_static) (mk_msg 65)
   = Inr (first_sent, [tolayer3 A (data_pkt 0 65), starttimer A])"
  by code_simp

lemma cached3_reached:
  "B_input (B_init B_static) (data_pkt 3 65) zero_pkt
   = Inr (cached3, [incr packets_received, tolayer3 B (ack_pkt (- 1))])"
  by code_simp

lemma six_sent_reached:
  "A_run (A_init A_static) (replicate 7 (Submit (mk_msg 65))) = Inr six_sent"
  by code_simp

subsection \<open>Submission to a full window\<close>

text \<open>
  C8. A message submitted while the outstanding count equals \<open>WINDOWSIZE\<close> is rejected:
  \<open>A_output\<close> returns the sender state it was given (buffer, window indices,
  outstanding count, next sequence number and acked flags), hands no packet to layer 3
  and starts no timer; its only call counts the rejection in \<^verbatim>\<open>window_full\<close>.
\<close>

theorem A_output_window_full:
  "windowcount s = WINDOWSIZE \<Longrightarrow> A_output s m = Inr (s, [incr window_full])"
  by (simp add: A_output_def)

theorem A_output_window_full_witness:
  "windowcount six_sent = WINDOWSIZE
   \<and> A_output six_sent (mk_msg 71) = Inr (six_sent, [incr window_full])"
proof -
  have h: "windowcount six_sent = WINDOWSIZE"
    by (simp add: six_sent_def WINDOWSIZE_def)
  from A_output_window_full [OF h, of "mk_msg 71"] h show ?thesis
    by simp
qed

subsection \<open>Corrupted packets at the receiver\<close>

text \<open>
  C7. A corrupted packet given to \<open>B_input\<close> leaves the receiver state (expected
  sequence number, received flags, packet buffer) as it was, and the routine makes no
  call at all: no acknowledgment is transmitted and nothing is delivered.
\<close>

theorem B_input_corrupted_dropped:
  "IsCorrupted p \<Longrightarrow> B_input r p u = Inr (r, [])"
  by (simp add: B_input_def)

theorem B_input_corrupted_dropped_witness:
  "IsCorrupted (mutate (PayloadByte 0) 122 (data_pkt 0 65))
   \<and> B_input (B_init B_static) (mutate (PayloadByte 0) 122 (data_pkt 0 65)) zero_pkt
       = Inr (B_init B_static, [])"
proof -
  have h: "IsCorrupted (mutate (PayloadByte 0) 122 (data_pkt 0 65))"
    by code_simp
  from B_input_corrupted_dropped [OF h, of "B_init B_static" zero_pkt] h show ?thesis
    by simp
qed

subsection \<open>Timer expiry\<close>

text \<open>
  C9. On timer expiry, when the head index lies inside the window buffer,
  \<open>A_timerinterrupt\<close> returns with the sender state unchanged, hands exactly one packet
  to layer 3, the packet at the window head, and starts the timer if and only if the
  outstanding count is greater than 0.
\<close>

theorem A_timerinterrupt_retransmits_head:
  assumes "in_bounds (windowfirst s) (buffer s)"
  shows "\<exists>evs. A_timerinterrupt s = Inr (s, evs)
           \<and> transmitted evs = [buffer s ! idx (windowfirst s)]
           \<and> (starttimer A \<in> set evs \<longleftrightarrow> 0 < sint (windowcount s))"
  using assms by (simp add: A_timerinterrupt_def)

theorem A_timerinterrupt_retransmits_head_witness:
  "in_bounds (windowfirst six_sent) (buffer six_sent)
   \<and> (\<exists>evs. A_timerinterrupt six_sent = Inr (six_sent, evs)
          \<and> transmitted evs = [buffer six_sent ! idx (windowfirst six_sent)]
          \<and> (starttimer A \<in> set evs \<longleftrightarrow> 0 < sint (windowcount six_sent)))"
proof -
  have h: "in_bounds (windowfirst six_sent) (buffer six_sent)"
    by (simp add: in_bounds_def six_sent_def)
  from A_timerinterrupt_retransmits_head [OF h] h show ?thesis
    by blast
qed

subsection \<open>The window slide\<close>

text \<open>The slide only moves the head index and the outstanding count.\<close>

lemma slide_frame:
  "slide s = Inr s' \<Longrightarrow>
   acked s' = acked s \<and> buffer s' = buffer s \<and> A_nextseqnum s' = A_nextseqnum s
   \<and> windowlast s' = windowlast s"
proof (induction s rule: slide.induct)
  case (1 s)
  show ?case
  proof (cases "0 < sint (windowcount s) \<and> in_bounds (windowfirst s) (buffer s)
      \<and> in_bounds (seqnum (buffer s ! idx (windowfirst s))) (acked s)
      \<and> acked s ! idx (seqnum (buffer s ! idx (windowfirst s)))")
    case True
    with "1.prems" have "slide (s\<lparr>windowfirst := c_mod (windowfirst s + 1) WINDOWSIZE,
        windowcount := windowcount s - 1\<rparr>) = Inr s'"
      by (subst (asm) slide.simps) simp
    with True "1.IH" show ?thesis by simp
  next
    case False
    with "1.prems" have "s' = s"
      by (subst (asm) slide.simps) (auto split: if_splits)
    then show ?thesis by simp
  qed
qed

text \<open>
  A slide that returns has taken some number \<open>n\<close> of steps: before each of them the
  head was to be skipped, and after the last one it is not.
\<close>

lemma slide_iterates:
  "slide s = Inr s' \<Longrightarrow>
   \<exists>n. s' = (advance ^^ n) s \<and> (\<forall>k<n. head_acked ((advance ^^ k) s)) \<and> \<not> head_acked s'"
proof (induction s rule: slide.induct)
  case (1 s)
  show ?case
  proof (cases "0 < sint (windowcount s) \<and> in_bounds (windowfirst s) (buffer s)
      \<and> in_bounds (seqnum (buffer s ! idx (windowfirst s))) (acked s)
      \<and> acked s ! idx (seqnum (buffer s ! idx (windowfirst s)))")
    case True
    then have head: "head_acked s"
      by (simp add: head_acked_def)
    have adv: "s\<lparr>windowfirst := c_mod (windowfirst s + 1) WINDOWSIZE,
        windowcount := windowcount s - 1\<rparr> = advance s"
      by (simp add: advance_def)
    from True "1.prems" have "slide (advance s) = Inr s'"
      by (subst (asm) slide.simps) (simp add: advance_def)
    with True "1.IH" [unfolded adv] obtain n where n: "s' = (advance ^^ n) (advance s)"
      "\<forall>k<n. head_acked ((advance ^^ k) (advance s))" "\<not> head_acked s'"
      by blast
    have "head_acked ((advance ^^ k) s)" if "k < Suc n" for k
    proof (cases k)
      case 0
      with head show ?thesis by simp
    next
      case (Suc j)
      with that n(2) show ?thesis by (simp add: funpow_swap1)
    qed
    with n(1,3) have "s' = (advance ^^ Suc n) s \<and> (\<forall>k<Suc n. head_acked ((advance ^^ k) s))
        \<and> \<not> head_acked s'"
      by (simp add: funpow_swap1)
    then show ?thesis by blast
  next
    case False
    with "1.prems" have eq: "s' = s" and stop: "\<not> head_acked s"
      by (subst (asm) slide.simps; auto simp: head_acked_def split: if_splits)+
    then have "s' = (advance ^^ 0) s \<and> (\<forall>k<0. head_acked ((advance ^^ k) s)) \<and> \<not> head_acked s'"
      by simp
    then show ?thesis by blast
  qed
qed

subsection \<open>A returning call on a new acknowledgment\<close>

text \<open>
  What a call of \<open>A_input\<close> that returns has done with an acknowledgment that is not
  corrupted and not yet marked acked.
\<close>

lemma A_input_new_ack_returned:
  assumes ok: "\<not> IsCorrupted p"
    and new: "\<not> acked s ! idx (acknum p)"
    and run: "A_input s p = Inr (s', evs)"
  shows "acked s' ! idx (acknum p)
    \<and> (acknum p = seqnum (buffer s ! idx (windowfirst s)) \<longrightarrow>
         (\<exists>n. s' = (advance ^^ n) (s\<lparr>acked := (acked s)[idx (acknum p) := True]\<rparr>)
              \<and> (\<forall>k<n. head_acked ((advance ^^ k) (s\<lparr>acked := (acked s)[idx (acknum p) := True]\<rparr>)))
              \<and> \<not> head_acked s')
         \<and> evs = [incr new_ACKs, stoptimer A] @
                   (if 0 < sint (windowcount s') then [starttimer A] else []))"
proof -
  let ?s1 = "s\<lparr>acked := (acked s)[idx (acknum p) := True]\<rparr>"
  from ok run have inb: "in_bounds (acknum p) (acked s)"
    by (auto simp: A_input_def split: if_splits)
  then have marked: "acked ?s1 ! idx (acknum p)"
    by (simp add: in_bounds_def idx_def nat_less_iff)
  show ?thesis
  proof (cases "acknum p = seqnum (buffer s ! idx (windowfirst s))")
    case True
    with ok new inb run have sl: "slide ?s1 = Inr s'"
      and ev: "evs = [incr new_ACKs, stoptimer A] @
                 (if 0 < sint (windowcount s') then [starttimer A] else [])"
      by (auto simp: A_input_def Let_def split: if_splits sum.splits)
    from slide_frame [OF sl] marked have "acked s' ! idx (acknum p)"
      by simp
    with slide_iterates [OF sl] ev show ?thesis
      by blast
  next
    case False
    with ok new inb run have "s' = ?s1"
      by (auto simp: A_input_def Let_def split: if_splits sum.splits)
    with marked False show ?thesis
      by simp
  qed
qed

lemma six_sent_ack1_reached:
  "A_input six_sent (ack_pkt 1) = Inr (six_sent_ack1, [incr new_ACKs])"
  by code_simp

lemma six_sent_slid_reached:
  "A_input six_sent_ack1 (ack_pkt 0)
   = Inr (six_sent_slid, [incr new_ACKs, stoptimer A, starttimer A])"
  by code_simp

subsection \<open>A repeated acknowledgment\<close>

text \<open>
  C5. When \<open>A_input\<close> has processed an acknowledgment packet, processing the same packet
  again returns the same sender state (window buffer, head and tail indices,
  outstanding count, next sequence number, acked flags) and makes no call: applying
  \<open>A_input\<close> to the same acknowledgment twice gives the state of applying it once.
\<close>

theorem A_input_idempotent:
  assumes "A_input s p = Inr (s1, e1)"
  shows "A_input s1 p = Inr (s1, [])"
proof (cases "IsCorrupted p")
  case True
  with assms show ?thesis by (simp add: A_input_def)
next
  case False
  with assms have inb: "in_bounds (acknum p) (acked s)"
    by (auto simp: A_input_def split: if_splits)
  show ?thesis
  proof (cases "acked s ! idx (acknum p)")
    case True
    with assms False inb show ?thesis by (simp add: A_input_def)
  next
    case new: False
    let ?a = "(acked s)[idx (acknum p) := True]"
    from inb have i: "idx (acknum p) < length (acked s)"
      by (simp add: in_bounds_def idx_def nat_less_iff)
    have "acked s1 = ?a"
    proof (cases "acknum p = seqnum (buffer s ! idx (windowfirst s))")
      case True
      with assms False inb new have "slide (s\<lparr>acked := ?a\<rparr>) = Inr s1"
        by (auto simp: A_input_def Let_def split: if_splits sum.splits)
      from slide_frame [OF this] show ?thesis by simp
    next
      case False
      with assms \<open>\<not> IsCorrupted p\<close> inb new show ?thesis
        by (auto simp: A_input_def Let_def split: if_splits sum.splits)
    qed
    with i have "in_bounds (acknum p) (acked s1)" "acked s1 ! idx (acknum p)"
      using inb by (simp_all add: in_bounds_def)
    with False show ?thesis by (simp add: A_input_def)
  qed
qed

theorem A_input_idempotent_witness:
  "A_input six_sent_ack1 (ack_pkt 0)
     = Inr (six_sent_slid, [incr new_ACKs, stoptimer A, starttimer A])
   \<and> A_input six_sent_slid (ack_pkt 0) = Inr (six_sent_slid, [])"
  using A_input_idempotent [OF six_sent_slid_reached] six_sent_slid_reached by simp

subsection \<open>The window bound\<close>

lemma count_ok_A_init: "count_ok (A_init s)"
  by (simp add: count_ok_def A_init_def)

lemma count_ok_A_output: "count_ok s \<Longrightarrow> A_output s m = Inr (s', evs) \<Longrightarrow> count_ok s'"
  by (auto simp: count_ok_def A_output_def Let_def sint_succ split: if_splits)

lemma count_ok_slide: "count_ok s \<Longrightarrow> slide s = Inr s' \<Longrightarrow> count_ok s'"
proof (induction s rule: slide.induct)
  case (1 s)
  show ?case
  proof (cases "0 < sint (windowcount s) \<and> in_bounds (windowfirst s) (buffer s)
      \<and> in_bounds (seqnum (buffer s ! idx (windowfirst s))) (acked s)
      \<and> acked s ! idx (seqnum (buffer s ! idx (windowfirst s)))")
    case True
    let ?t = "s\<lparr>windowfirst := c_mod (windowfirst s + 1) WINDOWSIZE,
        windowcount := windowcount s - 1\<rparr>"
    from True "1.prems"(2) have "slide ?t = Inr s'"
      by (subst (asm) slide.simps) simp
    moreover from True "1.prems"(1) have "count_ok ?t"
      by (simp add: count_ok_def sint_pred)
    ultimately show ?thesis
      using True "1.IH" by simp
  next
    case False
    with "1.prems"(2) have "s' = s"
      by (subst (asm) slide.simps) (auto split: if_splits)
    with "1.prems"(1) show ?thesis by simp
  qed
qed

lemma count_ok_A_input: "count_ok s \<Longrightarrow> A_input s p = Inr (s', evs) \<Longrightarrow> count_ok s'"
proof -
  assume ok: "count_ok s" and run: "A_input s p = Inr (s', evs)"
  let ?s1 = "s\<lparr>acked := (acked s)[idx (acknum p) := True]\<rparr>"
  from ok have ok1: "count_ok ?s1"
    by (simp add: count_ok_def)
  from run consider "s' = s" | "s' = ?s1" | "slide ?s1 = Inr s'"
    by (auto simp: A_input_def Let_def split: if_splits sum.splits)
  then show "count_ok s'"
  proof cases
    case 1
    with ok show ?thesis by simp
  next
    case 2
    with ok1 show ?thesis by simp
  next
    case 3
    with ok1 show ?thesis by (rule count_ok_slide)
  qed
qed

lemma count_ok_A_timerinterrupt:
  "count_ok s \<Longrightarrow> A_timerinterrupt s = Inr (s', evs) \<Longrightarrow> count_ok s'"
  by (auto simp: A_timerinterrupt_def split: if_splits)

lemma count_ok_A_step: "count_ok s \<Longrightarrow> A_step s x = Inr (s', evs) \<Longrightarrow> count_ok s'"
  by (cases x) (auto intro: count_ok_A_output count_ok_A_input count_ok_A_timerinterrupt)

lemma count_ok_A_run: "count_ok s \<Longrightarrow> A_run s xs = Inr s' \<Longrightarrow> count_ok s'"
proof (induction xs arbitrary: s)
  case Nil
  then show ?case by simp
next
  case (Cons x xs)
  from Cons.prems(2) obtain t evs where step: "A_step s x = Inr (t, evs)"
    and rest: "A_run t xs = Inr s'"
    by (auto split: sum.splits)
  from Cons.prems(1) step have "count_ok t"
    by (rule count_ok_A_step)
  then show ?case
    using rest by (rule Cons.IH)
qed

text \<open>
  As long as every call stays inside the arrays, the outstanding count stays between 0
  and \<open>WINDOWSIZE\<close>.
\<close>

lemma window_bound_returned:
  "A_run (A_init s0) ops = Inr s \<Longrightarrow>
   0 \<le> sint (windowcount s) \<and> sint (windowcount s) \<le> sint WINDOWSIZE"
  using count_ok_A_run [OF count_ok_A_init] by (simp add: count_ok_def)

subsection \<open>Index ranges of the sender\<close>

text \<open>
  From the initial state on, the indices and the buffered sequence numbers of the sender
  stay inside their arrays, so \<open>A_output\<close> and \<open>A_timerinterrupt\<close> always return, and
  \<open>A_input\<close> returns unless the packet is uncorrupted and its \<^verbatim>\<open>acknum\<close> lies outside
  \<^verbatim>\<open>acked\<close>.
\<close>

lemma length_clear_flags:
  "length (foldl (\<lambda>a i. a[i := False]) xs js) = length xs"
  by (induction js arbitrary: xs) simp_all

lemma sender_inv_A_init:
  assumes "length (buffer s) = 6" "length (acked s) = 12"
    and "list_all (\<lambda>p. 0 \<le> sint (seqnum p) \<and> sint (seqnum p) < 12) (buffer s)"
  shows "sender_inv (A_init s)"
  using assms by (simp add: sender_inv_def A_init_def count_ok_def length_clear_flags)

lemma sender_inv_A_static: "sender_inv (A_init A_static)"
  by (rule sender_inv_A_init) (simp_all add: A_static_def zero_pkt_def list_all_iff)

lemma sender_inv_A_output:
  assumes inv: "sender_inv s"
  shows "\<exists>s' evs. A_output s m = Inr (s', evs) \<and> sender_inv s'"
proof (cases "sint (windowcount s) < 6")
  case False
  with inv show ?thesis by (simp add: A_output_def)
next
  case True
  let ?wl = "c_mod (windowlast s + 1) WINDOWSIZE"
  let ?ns = "c_mod (A_nextseqnum s + 1) SEQSPACE"
  from inv have wl: "sint ?wl = (sint (windowlast s) + 1) mod 6"
    by (simp add: sender_inv_def c_mod_succ)
  from inv have ns: "sint ?ns = (sint (A_nextseqnum s) + 1) mod 12"
    by (simp add: sender_inv_def c_mod_succ)
  from inv wl have inb: "in_bounds ?wl (buffer s)"
    by (simp add: in_bounds_def sender_inv_def)
  from inv True have wc: "sint (windowcount s + 1) = sint (windowcount s) + 1"
    by (simp add: sender_inv_def count_ok_def sint_succ)
  have upd: "list_all P (xs[i := x])" if "list_all P xs" "P x" for P and xs :: "pkt list" and i x
    using that set_update_subset_insert [of xs i x] by (auto simp: list_all_iff)
  from inv True inb wl ns wc show ?thesis
    by (simp add: A_output_def Let_def sender_inv_def count_ok_def upd)
qed

lemma sender_inv_slide:
  "sender_inv s \<Longrightarrow> \<exists>s'. slide s = Inr s' \<and> sender_inv s'"
proof (induction s rule: slide.induct)
  case (1 s)
  from "1.prems" have b1: "in_bounds (windowfirst s) (buffer s)"
    by (simp add: sender_inv_def in_bounds_def)
  with "1.prems" have b2: "in_bounds (seqnum (buffer s ! idx (windowfirst s))) (acked s)"
    by (simp add: sender_inv_def in_bounds_def idx_def list_all_length nat_less_iff)
  show ?case
  proof (cases "0 < sint (windowcount s) \<and> acked s ! idx (seqnum (buffer s ! idx (windowfirst s)))")
    case True
    let ?t = "s\<lparr>windowfirst := c_mod (windowfirst s + 1) WINDOWSIZE,
        windowcount := windowcount s - 1\<rparr>"
    from "1.prems" have "sint (c_mod (windowfirst s + 1) WINDOWSIZE) = (sint (windowfirst s) + 1) mod 6"
      by (simp add: sender_inv_def c_mod_succ)
    with True "1.prems" have "sender_inv ?t"
      by (simp add: sender_inv_def count_ok_def sint_pred)
    with True b1 b2 "1.IH" obtain s' where "slide ?t = Inr s'" "sender_inv s'"
      by auto
    with True b1 b2 show ?thesis
      by (subst slide.simps) simp
  next
    case False
    with b1 b2 have "slide s = Inr s"
      by (subst slide.simps) auto
    with "1.prems" show ?thesis by simp
  qed
qed

lemma sender_inv_A_input:
  assumes inv: "sender_inv s" and arg: "IsCorrupted p \<or> in_bounds (acknum p) (acked s)"
  shows "\<exists>s' evs. A_input s p = Inr (s', evs) \<and> sender_inv s'"
proof (cases "\<not> IsCorrupted p \<and> \<not> acked s ! idx (acknum p)")
  case False
  with inv arg show ?thesis by (auto simp: A_input_def)
next
  case True
  let ?s1 = "s\<lparr>acked := (acked s)[idx (acknum p) := True]\<rparr>"
  from inv have inv1: "sender_inv ?s1"
    by (simp add: sender_inv_def count_ok_def)
  from inv have b1: "in_bounds (windowfirst s) (buffer s)"
    by (simp add: sender_inv_def in_bounds_def)
  from sender_inv_slide [OF inv1] obtain s2 where sl: "slide ?s1 = Inr s2" and inv2: "sender_inv s2"
    by blast
  show ?thesis
  proof (cases "acknum p = seqnum (buffer s ! idx (windowfirst s))")
    case head: True
    have "A_input s p = Inr (s2, [incr new_ACKs, stoptimer A] @
        (if 0 < sint (windowcount s2) then [starttimer A] else []))"
      unfolding A_input_def Let_def using True arg b1 head sl by simp
    with inv2 show ?thesis by blast
  next
    case False
    with True arg b1 have "A_input s p = Inr (?s1, [incr new_ACKs])"
      by (simp add: A_input_def Let_def)
    with inv1 show ?thesis by blast
  qed
qed

lemma sender_inv_A_timerinterrupt:
  "sender_inv s \<Longrightarrow> \<exists>evs. A_timerinterrupt s = Inr (s, evs)"
  by (simp add: A_timerinterrupt_def sender_inv_def in_bounds_def)

lemma A_input_fault_iff:
  assumes "sender_inv s" and "\<not> IsCorrupted p"
  shows "A_input s p = Inl OutOfBounds
         \<longleftrightarrow> \<not> (0 \<le> sint (acknum p) \<and> sint (acknum p) < sint SEQSPACE)"
proof (cases "in_bounds (acknum p) (acked s)")
  case True
  with sender_inv_A_input [OF assms(1), of p] assms show ?thesis
    by (auto simp: in_bounds_def sender_inv_def)
next
  case False
  with assms show ?thesis
    by (auto simp: A_input_def in_bounds_def sender_inv_def)
qed

lemma sender_inv_A_step:
  assumes "sender_inv s" and "op_ok x"
  shows "\<exists>s' evs. A_step s x = Inr (s', evs) \<and> sender_inv s'"
proof (cases x)
  case (Submit m)
  with assms sender_inv_A_output [of s m] show ?thesis by simp
next
  case (OnAck p)
  with assms have "IsCorrupted p \<or> in_bounds (acknum p) (acked s)"
    by (auto simp: in_bounds_def sender_inv_def)
  with assms OnAck sender_inv_A_input [of s p] show ?thesis by simp
next
  case OnTimeout
  with assms sender_inv_A_timerinterrupt [of s] show ?thesis by auto
qed

lemma sender_inv_A_run:
  "sender_inv s \<Longrightarrow> list_all op_ok ops \<Longrightarrow> \<exists>s'. A_run s ops = Inr s' \<and> sender_inv s'"
proof (induction ops arbitrary: s)
  case Nil
  then show ?case by simp
next
  case (Cons x xs)
  from Cons.prems obtain t evs where step: "A_step s x = Inr (t, evs)" and t: "sender_inv t"
    using sender_inv_A_step [of s x] by auto
  from Cons.IH [OF t] Cons.prems(2) obtain s' where "A_run t xs = Inr s'" "sender_inv s'"
    by auto
  with step show ?case by simp
qed

text \<open>
  When every acknowledgment is corrupted or names a sequence number of the sequence
  space, the run returns and the outstanding count is between 0 and \<open>WINDOWSIZE\<close>.
\<close>

lemma window_bound_total:
  assumes "sender_inv s" and "list_all op_ok ops"
  shows "\<exists>s'. A_run s ops = Inr s'
           \<and> 0 \<le> sint (windowcount s') \<and> sint (windowcount s') \<le> sint WINDOWSIZE"
  using sender_inv_A_run [OF assms] by (auto simp: sender_inv_def count_ok_def)


subsection \<open>A new acknowledgment\<close>

lemma six_sent_ack1_inv: "sender_inv six_sent_ack1"
  by code_simp

text \<open>
  C3. Let the sender be in a state whose indices and buffered sequence numbers lie
  inside its arrays, and let \<open>A_input\<close> be given an acknowledgment that is not corrupted
  and names a sequence number of the sequence space that is not yet marked acked. Then
  \<open>A_input\<close> returns, and afterwards that sequence number is marked acked. If it is the
  sequence number of the packet at the window head, the new state is the old one with
  the flag set and the head advanced (outstanding count decremented) \<open>n\<close> times, where
  before each step the outstanding count was positive and the head's sequence number
  marked acked, and after the last step this no longer holds; and the calls are: count
  the acknowledgment, stop the timer, and start it again if and only if the outstanding
  count is still positive. Otherwise only the flag is set and the acknowledgment counted.
\<close>

theorem A_input_new_ack:
  assumes inv: "sender_inv s"
    and ok: "\<not> IsCorrupted p"
    and rng: "0 \<le> sint (acknum p) \<and> sint (acknum p) < sint SEQSPACE"
    and new: "\<not> acked s ! idx (acknum p)"
  shows "\<exists>s' evs. A_input s p = Inr (s', evs)
    \<and> acked s' ! idx (acknum p)
    \<and> (acknum p = seqnum (buffer s ! idx (windowfirst s)) \<longrightarrow>
         (\<exists>n. s' = (advance ^^ n) (s\<lparr>acked := (acked s)[idx (acknum p) := True]\<rparr>)
              \<and> (\<forall>k<n. head_acked ((advance ^^ k) (s\<lparr>acked := (acked s)[idx (acknum p) := True]\<rparr>)))
              \<and> \<not> head_acked s')
         \<and> evs = [incr new_ACKs, stoptimer A] @
                   (if 0 < sint (windowcount s') then [starttimer A] else []))
    \<and> (acknum p \<noteq> seqnum (buffer s ! idx (windowfirst s)) \<longrightarrow>
         s' = s\<lparr>acked := (acked s)[idx (acknum p) := True]\<rparr> \<and> evs = [incr new_ACKs])"
proof -
  from inv rng have inb: "in_bounds (acknum p) (acked s)"
    by (simp add: in_bounds_def sender_inv_def)
  with sender_inv_A_input [OF inv, of p] obtain s' evs where run: "A_input s p = Inr (s', evs)"
    by blast
  have other: "s' = s\<lparr>acked := (acked s)[idx (acknum p) := True]\<rparr> \<and> evs = [incr new_ACKs]"
    if "acknum p \<noteq> seqnum (buffer s ! idx (windowfirst s))"
    using that run ok new inb by (auto simp: A_input_def Let_def split: if_splits)
  from A_input_new_ack_returned [OF ok new run] run other show ?thesis
    by blast
qed

theorem A_input_new_ack_witness:
  "sender_inv six_sent_ack1
   \<and> \<not> IsCorrupted (ack_pkt 0)
   \<and> (0 \<le> sint (acknum (ack_pkt 0)) \<and> sint (acknum (ack_pkt 0)) < sint SEQSPACE)
   \<and> \<not> acked six_sent_ack1 ! idx (acknum (ack_pkt 0))
   \<and> acknum (ack_pkt 0) = seqnum (buffer six_sent_ack1 ! idx (windowfirst six_sent_ack1))
   \<and> A_input six_sent_ack1 (ack_pkt 0)
       = Inr (six_sent_slid, [incr new_ACKs, stoptimer A, starttimer A])
   \<and> acked six_sent_slid ! idx (acknum (ack_pkt 0))
   \<and> (\<exists>n. six_sent_slid
            = (advance ^^ n)
                (six_sent_ack1\<lparr>acked := (acked six_sent_ack1)[idx (acknum (ack_pkt 0)) := True]\<rparr>)
          \<and> (\<forall>k<n. head_acked ((advance ^^ k)
                (six_sent_ack1\<lparr>acked := (acked six_sent_ack1)[idx (acknum (ack_pkt 0)) := True]\<rparr>)))
          \<and> \<not> head_acked six_sent_slid)
   \<and> [incr new_ACKs, stoptimer A, starttimer A]
       = [incr new_ACKs, stoptimer A] @
         (if 0 < sint (windowcount six_sent_slid) then [starttimer A] else [])"
proof -
  note h1 = six_sent_ack1_inv
  have h2: "\<not> IsCorrupted (ack_pkt 0)"
    by (rule ack_pkt_ok)
  have h3: "0 \<le> sint (acknum (ack_pkt 0)) \<and> sint (acknum (ack_pkt 0)) < sint SEQSPACE"
    by (simp add: ack_pkt_def)
  have h4: "\<not> acked six_sent_ack1 ! idx (acknum (ack_pkt 0))"
    by code_simp
  have head: "acknum (ack_pkt 0) = seqnum (buffer six_sent_ack1 ! idx (windowfirst six_sent_ack1))"
    by code_simp
  from A_input_new_ack [OF h1 h2 h3 h4] obtain s' evs
    where run: "A_input six_sent_ack1 (ack_pkt 0) = Inr (s', evs)"
      and rest: "acked s' ! idx (acknum (ack_pkt 0))"
        "acknum (ack_pkt 0) = seqnum (buffer six_sent_ack1 ! idx (windowfirst six_sent_ack1)) \<longrightarrow>
         (\<exists>n. s' = (advance ^^ n)
                 (six_sent_ack1\<lparr>acked := (acked six_sent_ack1)[idx (acknum (ack_pkt 0)) := True]\<rparr>)
              \<and> (\<forall>k<n. head_acked ((advance ^^ k)
                 (six_sent_ack1\<lparr>acked := (acked six_sent_ack1)[idx (acknum (ack_pkt 0)) := True]\<rparr>)))
              \<and> \<not> head_acked s')
         \<and> evs = [incr new_ACKs, stoptimer A] @
                   (if 0 < sint (windowcount s') then [starttimer A] else [])"
    by blast
  from run six_sent_slid_reached have eqs: "s' = six_sent_slid"
    "evs = [incr new_ACKs, stoptimer A, starttimer A]"
    by simp_all
  note marked = rest(1) [unfolded eqs]
  note slid = rest(2) [THEN mp, OF head, unfolded eqs]
  from h1 h2 h3 h4 head six_sent_slid_reached marked slid show ?thesis
    by blast
qed

subsection \<open>Index ranges of the receiver\<close>

text \<open>
  The expected sequence number stays inside the receiver's arrays, so \<open>B_input\<close>
  returns on every packet that is corrupted or whose sequence number lies in the
  sequence space.
\<close>

lemma receiver_inv_deliver:
  "receiver_inv r \<Longrightarrow> \<exists>r' evs. deliver r = Inr (r', evs) \<and> receiver_inv r'"
proof (induction r rule: deliver.induct)
  case (1 r)
  from "1.prems" have b1: "in_bounds (expectedseqnum r) (received r)"
    and b2: "in_bounds (expectedseqnum r) (recvpkt r)"
    by (simp_all add: receiver_inv_def in_bounds_def)
  show ?case
  proof (cases "received r ! idx (expectedseqnum r)")
    case True
    let ?t = "r\<lparr>received := (received r)[idx (expectedseqnum r) := False],
        expectedseqnum := c_mod (expectedseqnum r + 1) SEQSPACE\<rparr>"
    from "1.prems" have "sint (c_mod (expectedseqnum r + 1) SEQSPACE) = (sint (expectedseqnum r) + 1) mod 12"
      by (simp add: receiver_inv_def c_mod_succ)
    with "1.prems" have "receiver_inv ?t"
      by (simp add: receiver_inv_def)
    with True b1 b2 "1.IH" obtain r' evs where "deliver ?t = Inr (r', evs)" "receiver_inv r'"
      by auto
    with True b1 b2 show ?thesis
      by (subst deliver.simps) simp
  next
    case False
    with b1 have "deliver r = Inr (r, [])"
      by (subst deliver.simps) simp
    with "1.prems" show ?thesis by simp
  qed
qed

lemma receiver_inv_B_input:
  assumes inv: "receiver_inv r"
    and arg: "IsCorrupted p \<or> (0 \<le> sint (seqnum p) \<and> sint (seqnum p) < sint SEQSPACE)"
  shows "\<exists>r' evs. B_input r p u = Inr (r', evs) \<and> receiver_inv r'"
proof (cases "IsCorrupted p")
  case True
  with inv show ?thesis by (simp add: B_input_def)
next
  case False
  with inv arg have b: "in_bounds (seqnum p) (received r)" "in_bounds (seqnum p) (recvpkt r)"
    by (simp_all add: in_bounds_def receiver_inv_def)
  let ?r1 = "if \<not> received r ! idx (seqnum p)
    then r\<lparr>received := (received r)[idx (seqnum p) := True],
           recvpkt := (recvpkt r)[idx (seqnum p) :=
             (recvpkt r ! idx (seqnum p))\<lparr>payload := map (\<lambda>i. payload p ! i) [0..<20]\<rparr>]\<rparr>
    else r"
  from inv have "receiver_inv ?r1"
    by (simp add: receiver_inv_def)
  from receiver_inv_deliver [OF this] obtain r2 evs
    where "deliver ?r1 = Inr (r2, evs)" "receiver_inv r2"
    by blast
  with False b show ?thesis
    by (auto simp: B_input_def Let_def)
qed

lemma receiver_inv_B_static: "receiver_inv (B_init B_static)"
  by (simp add: receiver_inv_def B_init_def B_static_def)

subsection \<open>Receiver initialisation\<close>

text \<open>
  \<open>B_init\<close> assigns the two integers of the receiver and nothing else. On the
  zero-initialised storage every received flag is false before the call, and so after it.
\<close>

lemma B_init_fields:
  "expectedseqnum (B_init r) = 0 \<and> B_nextseqnum (B_init r) = 1
   \<and> recvpkt (B_init r) = recvpkt r \<and> received (B_init r) = received r"
  by (simp add: B_init_def)

lemma B_init_on_static:
  "expectedseqnum (B_init B_static) = 0
   \<and> received (B_init B_static) = replicate (nat (sint SEQSPACE)) False"
  by (simp add: B_init_def B_static_def)

text \<open>The sender's \<open>A_init\<close>, by contrast, clears every acked flag of the state it is
  called on.\<close>

lemma A_init_clears_acked:
  "length (acked s) = 12 \<Longrightarrow> acked (A_init s) = replicate 12 False"
proof -
  have fold: "n \<le> length xs \<Longrightarrow>
      foldl (\<lambda>a i. a[i := False]) xs [0..<n] = replicate n False @ drop n xs"
    for n and xs :: "bool list"
  proof (induction n)
    case 0
    then show ?case by simp
  next
    case (Suc n)
    then have "n < length xs" by simp
    then have "(replicate n False @ drop n xs)[n := False]
        = replicate (Suc n) False @ drop (Suc n) xs"
      by (simp add: list_update_append replicate_append_same upd_conv_take_nth_drop)
    with Suc show ?case by simp
  qed
  assume "length (acked s) = 12"
  with fold [of 12 "acked s"] show ?thesis
    by (simp add: A_init_def)
qed


subsection \<open>The acknowledgment the receiver sends\<close>

lemma ComputeChecksum_checksum_update:
  "ComputeChecksum (p\<lparr>checksum := c\<rparr>) = ComputeChecksum p"
  by (simp add: ComputeChecksum_def)

text \<open>
  Whatever uncorrupted packet \<open>B_input\<close> takes, the last call it makes transmits an
  acknowledgment whose \<^verbatim>\<open>acknum\<close> is \<open>NOTINUSE\<close>, whose payload is twenty characters
  \<^verbatim>\<open>'0'\<close> and whose checksum is the one \<open>ComputeChecksum\<close> gives; its \<^verbatim>\<open>seqnum\<close> is
  whatever the local variable held.
\<close>

lemma B_input_ack:
  assumes "\<not> IsCorrupted p" and "B_input r p u = Inr (r', evs)"
  shows "\<exists>ack. last evs = tolayer3 B ack \<and> acknum ack = NOTINUSE
           \<and> payload ack = replicate 20 48 \<and> checksum ack = ComputeChecksum ack
           \<and> seqnum ack = seqnum u"
  using assms
  by (auto simp: B_input_def Let_def map_replicate_const ComputeChecksum_checksum_update
           split: if_splits sum.splits)

lemma A_input_unaddressed_ack:
  assumes "acknum ack = NOTINUSE" and "\<not> IsCorrupted ack"
  shows "A_input s ack = Inl OutOfBounds"
  using assms by (simp add: A_input_def in_bounds_def)

text \<open>
  C1, evaluated on the first packet of a session. The receiver takes the uncorrupted
  packet with sequence number 0, delivers its payload and transmits an acknowledgment
  with a payload of twenty characters \<^verbatim>\<open>'0'\<close> and a checksum that matches, but with
  \<^verbatim>\<open>acknum\<close> \<open>- 1\<close>, not the sequence number 0 it received. (The local variable is
  taken to hold zeros; \<open>B_input_ack\<close> covers any contents.)
\<close>

theorem B_input_ack_unaddressed:
  "\<not> IsCorrupted (data_pkt 0 65)
   \<and> B_input (B_init B_static) (data_pkt 0 65) zero_pkt
       = Inr (first_received,
              [incr packets_received, tolayer5 B (replicate 20 65),
               tolayer3 B \<lparr>seqnum = 0, acknum = - 1, checksum = 959, payload = replicate 20 48\<rparr>])
   \<and> seqnum (data_pkt 0 65) = 0
   \<and> checksum \<lparr>seqnum = 0, acknum = - 1, checksum = 959, payload = replicate 20 48\<rparr>
       = ComputeChecksum \<lparr>seqnum = 0, acknum = - 1, checksum = 959, payload = replicate 20 48\<rparr>"
  by code_simp

text \<open>
  C2, evaluated on the same exchange. The acknowledgment the receiver has transmitted
  is not corrupted, and \<open>A_input\<close>, given it by the sender that has sent the first
  packet, indexes \<^verbatim>\<open>acked\<close> at \<open>- 1\<close>, outside the array.
\<close>

theorem A_input_receiver_ack_out_of_bounds:
  "B_input (B_init B_static) (data_pkt 0 65) zero_pkt
     = Inr (first_received,
            [incr packets_received, tolayer5 B (replicate 20 65), tolayer3 B (ack_pkt (- 1))])
   \<and> \<not> IsCorrupted (ack_pkt (- 1))
   \<and> sint (acknum (ack_pkt (- 1))) = - 1
   \<and> A_input first_sent (ack_pkt (- 1)) = Inl OutOfBounds"
  by code_simp

end
